theory Spec2Isabelle
  imports Main
begin

section \<open>Data model of merkletree.py\<close>

text \<open>
  Python values that reach the tree: \<open>None\<close> and strings (\<open>str\<close> or \<open>bytes\<close>, both a
  sequence of characters with \<open>+\<close> as concatenation). Items of the input collection and
  the argument of \<open>contains\<close> are such values; a digest is a string.
\<close>

datatype pyval = PNone | PStr string

text \<open>
  Class \<open>__Node\<close>: the value (a digest) and the two child references, each of which may
  be \<open>None\<close>.
\<close>

datatype node = Node (node_value: string) (left: "node option") (right: "node option")

text \<open>
  The exceptions the code can raise: the \<open>assert\<close> of \<open>build_root\<close>, an index out of
  range, the \<open>Exception\<close> raised by \<open>request_proof\<close> with its message, and the lookup of
  an attribute that the class does not define.
\<close>

datatype error = AssertionError | IndexError | Exception string | AttributeError string

text \<open>Class \<open>MerkleTree\<close>: the digest delegate and the root reference.\<close>

record merkle_tree =
  digest :: "pyval \<Rightarrow> string"
  root :: "node option"

text \<open>The default digest delegate \<open>lambda x: str(x)\<close>.\<close>

fun default_digest :: "pyval \<Rightarrow> string" where
  "default_digest PNone = ''None''"
| "default_digest (PStr s) = s"

section \<open>Construction\<close>

text \<open>
  The loop \<open>for i in range(0, size - 1, 2)\<close> of \<open>__build_root\<close>, with \<open>stop = size - 1\<close>:
  it reads \<open>collection[i]\<close> and \<open>collection[i+1]\<close> (an IndexError when out of range) and
  appends their parent to \<open>next_level\<close>.
\<close>

function for_loop ::
  "(pyval \<Rightarrow> string) \<Rightarrow> node list \<Rightarrow> nat \<Rightarrow> nat \<Rightarrow> node list \<Rightarrow> error + node list" where
  "for_loop D collection stop i next_level =
     (if i < stop then
        (if i + 1 < length collection then
           (let digest = D (PStr (node_value (collection ! i) @ node_value (collection ! (i + 1))));
                node = Node digest (Some (collection ! i)) (Some (collection ! (i + 1)))
            in for_loop D collection stop (i + 2) (next_level @ [node]))
         else Inl IndexError)
      else Inr next_level)"
  by pat_completeness auto
termination
  by (relation "measure (\<lambda>(D, collection, stop, i, next_level). stop - i)") auto

declare for_loop.simps [simp del]

text \<open>One fold level written structurally: adjacent pairs, a trailing single node is left out.\<close>

fun pair_up :: "(pyval \<Rightarrow> string) \<Rightarrow> node list \<Rightarrow> node list" where
  "pair_up D (a # b # rest) =
     Node (D (PStr (node_value a @ node_value b))) (Some a) (Some b) # pair_up D rest"
| "pair_up D [a] = []"
| "pair_up D [] = []"

lemma length_pair_up: "length (pair_up D c) = length c div 2"
  by (induction D c rule: pair_up.induct) simp_all

lemma pair_up_short: "length c \<le> 1 \<Longrightarrow> pair_up D c = []"
proof (cases c)
  case Nil
  then show ?thesis by simp
next
  case (Cons a c')
  assume "length c \<le> 1"
  with Cons have "c' = []" by simp
  with Cons show ?thesis by simp
qed

lemma for_loop_pair_up:
  "stop < length c \<Longrightarrow> i \<le> stop + 1 \<Longrightarrow>
   for_loop D c stop i acc = Inr (acc @ pair_up D (drop i (take (stop + 1) c)))"
proof (induction D c stop i acc rule: for_loop.induct)
  case (1 D c stop i acc)
  show ?case
  proof (cases "i < stop")
    case True
    then have lt: "i + 1 < length c" using "1.prems" by simp
    have d: "drop i (take (stop + 1) c) = c ! i # c ! (i + 1) # drop (i + 2) (take (stop + 1) c)"
      using True "1.prems"
      by (simp add: Cons_nth_drop_Suc [symmetric])
    have "for_loop D c stop i acc =
          for_loop D c stop (i + 2)
            (acc @ [Node (D (PStr (node_value (c ! i) @ node_value (c ! (i + 1)))))
                      (Some (c ! i)) (Some (c ! (i + 1)))])"
      using True lt by (subst for_loop.simps) (simp add: Let_def)
    also have "\<dots> = Inr ((acc @ [Node (D (PStr (node_value (c ! i) @ node_value (c ! (i + 1)))))
                      (Some (c ! i)) (Some (c ! (i + 1)))]) @
                      pair_up D (drop (i + 2) (take (stop + 1) c)))"
      using True lt "1.prems" by (intro "1.IH") simp_all
    finally show ?thesis unfolding d by simp
  next
    case False
    then have "length (drop i (take (stop + 1) c)) \<le> 1" using "1.prems" by simp
    then have "pair_up D (drop i (take (stop + 1) c)) = []"
      by (rule pair_up_short)
    then show ?thesis using False by (subst for_loop.simps) simp
  qed
qed

text \<open>
  \<open>__build_root\<close>. \<open>size\<close> is read before the list is extended, and the copy of the last
  node is appended when \<open>size\<close> is even; \<open>collection[-1]\<close> raises IndexError on an empty list.
\<close>

function private_build_root :: "(pyval \<Rightarrow> string) \<Rightarrow> node list \<Rightarrow> error + node" where
  "private_build_root D collection =
     (let size = length collection in
      if size = 1 then Inr (collection ! 0)
      else if size mod 2 = 0 \<and> collection = [] then Inl IndexError
      else
        (let collection' =
               (if size mod 2 = 0
                then collection @ [Node (node_value (last collection)) (left (last collection))
                                     (right (last collection))]
                else collection)
         in case for_loop D collection' (size - 1) 0 [] of
              Inl e \<Rightarrow> Inl e
            | Inr next_level \<Rightarrow> private_build_root D next_level))"
  by pat_completeness auto
termination
proof (relation "measure (\<lambda>(D, collection). length collection)", goal_cases)
  case 1
  show ?case by simp
next
  case (2 D collection size collection' next_level)
  have ne: "collection \<noteq> []" and n1: "length collection \<noteq> 1"
    using 2 by auto
  have "for_loop D collection' (size - 1) 0 [] =
        Inr ([] @ pair_up D (drop 0 (take (size - 1 + 1) collection')))"
    using 2 ne by (intro for_loop_pair_up) (auto simp: less_Suc_eq_le)
  then have "length next_level = length (take (size - 1 + 1) collection') div 2"
    using 2(5) by (auto simp: length_pair_up)
  moreover have "length (take (size - 1 + 1) collection') = length collection"
    using 2(1,4) ne by (cases collection) auto
  moreover have "2 \<le> length collection"
    using ne n1 by (cases collection) (auto simp: Suc_le_eq)
  ultimately show ?case by simp
qed

declare private_build_root.simps [simp del]

text \<open>\<open>build_root\<close>: the \<open>assert\<close>, the padding of an odd collection, the leaves.\<close>

definition build_root :: "(pyval \<Rightarrow> string) \<Rightarrow> pyval list \<Rightarrow> error + node" where
  "build_root D iterable =
     (let collection = iterable in
      if length collection = 0 then Inl AssertionError
      else
        (let collection = (if length collection mod 2 \<noteq> 0
                           then collection @ [last collection] else collection);
             collection = map (\<lambda>x. Node (D x) None None) collection
         in private_build_root D collection))"

text \<open>
  The constructor \<open>MerkleTree(iterable, digest_delegate)\<close>: an exception raised while
  building leaves no object.
\<close>

definition MerkleTree :: "pyval list \<Rightarrow> (pyval \<Rightarrow> string) \<Rightarrow> error + merkle_tree" where
  "MerkleTree iterable digest_delegate =
     (case build_root digest_delegate iterable of
        Inl e \<Rightarrow> Inl e
      | Inr r \<Rightarrow> Inr \<lparr>digest = digest_delegate, root = Some r\<rparr>)"

section \<open>Search\<close>

text \<open>
  \<open>__find\<close>: the node itself, then the left subtree, then the right one. A node object is
  truthy, so \<open>a or b\<close> is \<open>a\<close> unless \<open>a\<close> is \<open>None\<close>.
\<close>

fun private_find :: "node option \<Rightarrow> string \<Rightarrow> node option" where
  "private_find None v = None"
| "private_find (Some (Node x l r)) v =
     (if x = v then Some (Node x l r)
      else (case private_find l v of
              Some m \<Rightarrow> Some m
            | None \<Rightarrow> private_find r v))"

text \<open>\<open>contains\<close>: the guard on \<open>None\<close> comes before the digest is computed.\<close>

definition contains :: "merkle_tree \<Rightarrow> pyval \<Rightarrow> bool" where
  "contains t v =
     (if v = PNone \<or> root t = None then False
      else (let hashed_value = digest t v
            in private_find (root t) hashed_value \<noteq> None))"

section \<open>Proofs of membership\<close>

text \<open>
  Modelled from the spec: the side of a sibling and the Proof value, an ordered sequence of
  (sibling digest, side) entries; the source builds no value of this kind.
\<close>

datatype side = Left | Right

type_synonym proof_path = "(string \<times> side) list"

text \<open>
  \<open>request_proof\<close>: after the search, the code calls \<open>self.__build_valid_proof\<close>. Class
  \<open>MerkleTree\<close> defines no method of that name, so looking the attribute up raises
  AttributeError and the statements after the call are never reached.
\<close>

definition request_proof :: "merkle_tree \<Rightarrow> pyval \<Rightarrow> error + proof_path" where
  "request_proof t v =
     (let hashed_value = digest t v in
      if private_find (root t) hashed_value = None
      then Inl (Exception
        ''This argument is not contained in the tree. Therefore is not part of the root'')
      else Inl (AttributeError ''_MerkleTree__build_valid_proof''))"

text \<open>
  Modelled from the spec: the Proof Verifier \<open>verify(itemDigest, proof, expectedRoot)\<close> of
  section 4.4, which the source does not contain. It starts from the item digest, folds
  the entries in order, the sibling on the side the entry names, and compares with the
  expected root.
\<close>

fun verify_fold :: "(pyval \<Rightarrow> string) \<Rightarrow> string \<Rightarrow> proof_path \<Rightarrow> string" where
  "verify_fold D acc [] = acc"
| "verify_fold D acc ((siblingDigest, Left) # rest) =
     verify_fold D (D (PStr (siblingDigest @ acc))) rest"
| "verify_fold D acc ((siblingDigest, Right) # rest) =
     verify_fold D (D (PStr (acc @ siblingDigest))) rest"

definition verify :: "(pyval \<Rightarrow> string) \<Rightarrow> string \<Rightarrow> proof_path \<Rightarrow> string \<Rightarrow> bool" where
  "verify D itemDigest prf expectedRoot = (verify_fold D itemDigest prf = expectedRoot)"

section \<open>Nodes of a tree and the structural invariant\<close>

text \<open>The nodes reachable from a reference, in the order \<open>__find\<close> visits them.\<close>

fun nodes_of :: "node option \<Rightarrow> node list" where
  "nodes_of None = []"
| "nodes_of (Some (Node x l r)) = Node x l r # nodes_of l @ nodes_of r"

definition node_digests :: "node option \<Rightarrow> string set" where
  "node_digests r = node_value ` set (nodes_of r)"

text \<open>
  A node is a leaf when both children are absent; otherwise both must be present and its
  value is the digest of the left value followed by the right value.
\<close>

definition is_leaf :: "node \<Rightarrow> bool" where
  "is_leaf n = (left n = None \<and> right n = None)"

definition node_ok :: "(pyval \<Rightarrow> string) \<Rightarrow> node \<Rightarrow> bool" where
  "node_ok D n =
     (if is_leaf n then True
      else (case (left n, right n) of
              (Some l, Some r) \<Rightarrow> node_value n = D (PStr (node_value l @ node_value r))
            | _ \<Rightarrow> False))"

text \<open>The tree that \<open>MerkleTree(['None'])\<close> builds with the default digest.\<close>

abbreviation tree_of_None :: merkle_tree where
  "tree_of_None \<equiv>
     \<lparr>digest = default_digest,
      root = Some (Node ''NoneNone'' (Some (Node ''None'' None None))
               (Some (Node ''None'' None None)))\<rparr>"

text \<open>
  The trees that the constructor builds with the default digest from \<open>['a','b','c','d','e']\<close>,
  \<open>['a','b','c']\<close>, \<open>['a','b']\<close>, \<open>['a']\<close> and \<open>[None,'a']\<close>.
\<close>

abbreviation leaf :: "string \<Rightarrow> node" where
  "leaf d \<equiv> Node d None None"

abbreviation tree_of_abcde :: merkle_tree where
  "tree_of_abcde \<equiv>
     \<lparr>digest = default_digest,
      root = Some (Node ''abcd''
               (Some (Node ''ab'' (Some (leaf ''a'')) (Some (leaf ''b''))))
               (Some (Node ''cd'' (Some (leaf ''c'')) (Some (leaf ''d'')))))\<rparr>"

abbreviation tree_of_abc :: merkle_tree where
  "tree_of_abc \<equiv>
     \<lparr>digest = default_digest,
      root = Some (Node ''abcc''
               (Some (Node ''ab'' (Some (leaf ''a'')) (Some (leaf ''b''))))
               (Some (Node ''cc'' (Some (leaf ''c'')) (Some (leaf ''c'')))))\<rparr>"

abbreviation tree_of_ab :: merkle_tree where
  "tree_of_ab \<equiv>
     \<lparr>digest = default_digest,
      root = Some (Node ''ab'' (Some (leaf ''a'')) (Some (leaf ''b'')))\<rparr>"

abbreviation tree_of_a :: merkle_tree where
  "tree_of_a \<equiv>
     \<lparr>digest = default_digest,
      root = Some (Node ''aa'' (Some (leaf ''a'')) (Some (leaf ''a'')))\<rparr>"

abbreviation tree_of_None_a :: merkle_tree where
  "tree_of_None_a \<equiv>
     \<lparr>digest = default_digest,
      root = Some (Node ''Nonea'' (Some (Node ''None'' None None))
               (Some (Node ''a'' None None)))\<rparr>"

section \<open>Facts about construction\<close>

lemma private_build_root_single: "private_build_root D [n] = Inr n"
  by (subst private_build_root.simps) simp

lemma private_build_root_step:
  assumes "2 \<le> length c"
  shows "private_build_root D c = private_build_root D (pair_up D c)"
proof -
  define c' where "c' = (if length c mod 2 = 0
      then c @ [Node (node_value (last c)) (left (last c)) (right (last c))] else c)"
  have len: "length c - 1 < length c'" and tk: "take (length c - 1 + 1) c' = c"
    using assms by (auto simp: c'_def)
  have "for_loop D c' (length c - 1) 0 [] =
        Inr ([] @ pair_up D (drop 0 (take (length c - 1 + 1) c')))"
    using len by (intro for_loop_pair_up) simp_all
  then have loop: "for_loop D c' (length c - 1) 0 [] = Inr (pair_up D c)"
    by (simp only: tk drop_0 append_Nil)
  have "c \<noteq> []" "length c \<noteq> 1" using assms by auto
  then show ?thesis
    using loop by (subst private_build_root.simps) (simp add: Let_def c'_def)
qed

lemma private_build_root_Cons2:
  "private_build_root D (a # b # rest) = private_build_root D (pair_up D (a # b # rest))"
  by (rule private_build_root_step) simp

text \<open>
  Whatever holds of every node of a level and is kept by pairing holds of the root, and
  on a non-empty level a root is returned.
\<close>

lemma private_build_root_preserves:
  assumes step: "\<And>a b. Q a \<Longrightarrow> Q b \<Longrightarrow>
                   Q (Node (D (PStr (node_value a @ node_value b))) (Some a) (Some b))"
  shows "c \<noteq> [] \<Longrightarrow> \<forall>n \<in> set c. Q n \<Longrightarrow> \<exists>r. private_build_root D c = Inr r \<and> Q r"
proof (induction "length c" arbitrary: c rule: less_induct)
  case less
  show ?case
  proof (cases "length c = 1")
    case True
    then obtain n where "c = [n]" by (cases c) auto
    then show ?thesis using less.prems by (simp add: private_build_root_single)
  next
    case False
    then have two: "2 \<le> length c" using less.prems(1) by (cases c) (auto simp: Suc_le_eq)
    have all: "\<forall>n \<in> set (pair_up D c'). Q n" if "\<forall>n \<in> set c'. Q n" for c'
      using that by (induction c' rule: induct_list012) (auto intro: step)
    have "length (pair_up D c) < length c" "pair_up D c \<noteq> []"
      using two by (auto simp: length_pair_up simp flip: length_greater_0_conv)
    then have "\<exists>r. private_build_root D (pair_up D c) = Inr r \<and> Q r"
      using all [OF less.prems(2)] by (intro less.hyps) auto
    then show ?thesis by (simp add: private_build_root_step [OF two])
  qed
qed

lemma build_root_unfold:
  "C \<noteq> [] \<Longrightarrow> build_root D C =
     private_build_root D (map (\<lambda>x. Node (D x) None None)
       (if length C mod 2 \<noteq> 0 then C @ [last C] else C))"
  by (simp add: build_root_def Let_def)

lemma build_root_total:
  assumes "C \<noteq> []"
  shows "\<exists>r. build_root D C = Inr r"
proof -
  have "\<exists>r. private_build_root D (map (\<lambda>x. Node (D x) None None)
       (if length C mod 2 \<noteq> 0 then C @ [last C] else C)) = Inr r \<and> True"
    using assms by (intro private_build_root_preserves) auto
  then show ?thesis using assms by (simp only: build_root_unfold simp_thms)
qed

section \<open>Facts about the search\<close>

lemma find_append_list:
  "List.find P (xs @ ys) = (case List.find P xs of Some x \<Rightarrow> Some x | None \<Rightarrow> List.find P ys)"
  by (induction xs) auto

lemma private_find_preorder:
  "private_find r v = List.find (\<lambda>m. node_value m = v) (nodes_of r)"
  by (induction r v rule: private_find.induct) (auto simp: find_append_list split: option.splits)

lemma private_find_None_iff: "private_find r v = None \<longleftrightarrow> v \<notin> node_digests r"
  by (auto simp: private_find_preorder find_None_iff node_digests_def)

lemma nodes_of_root_ok:
  assumes "C \<noteq> []"
  shows "\<exists>r. build_root D C = Inr r \<and> (\<forall>m \<in> set (nodes_of (Some r)). node_ok D m)"
proof -
  let ?Q = "\<lambda>n. \<forall>m \<in> set (nodes_of (Some n)). node_ok D m"
  let ?c = "map (\<lambda>x. Node (D x) None None) (if length C mod 2 \<noteq> 0 then C @ [last C] else C)"
  have step: "?Q (Node (D (PStr (node_value a @ node_value b))) (Some a) (Some b))"
    if "?Q a" "?Q b" for a b
  proof -
    have "node_ok D (Node (D (PStr (node_value a @ node_value b))) (Some a) (Some b))"
      by (simp add: node_ok_def is_leaf_def)
    then show ?thesis using that by auto
  qed
  have leaves: "\<forall>n \<in> set ?c. ?Q n"
    by (auto simp: node_ok_def is_leaf_def)
  have "?c \<noteq> []" using assms by simp
  then have "\<exists>r. private_build_root D ?c = Inr r \<and> ?Q r"
    using leaves by (intro private_build_root_preserves [where Q = ?Q] step)
  then show ?thesis unfolding build_root_unfold [OF assms] .
qed

lemma contains_eq:
  "contains t w = (w \<noteq> PNone \<and> digest t w \<in> node_digests (root t))"
proof -
  have "root t = None \<Longrightarrow> node_digests (root t) = {}"
    by (simp add: node_digests_def)
  then show ?thesis
    by (auto simp: contains_def Let_def private_find_None_iff)
qed

section \<open>Facts about levels without an odd node count\<close>

lemma nodes_of_self: "m \<in> set (nodes_of (Some m))"
  by (cases m) simp

lemma nodes_of_child:
  "p \<in> set (nodes_of t) \<Longrightarrow> left p = Some m \<or> right p = Some m \<Longrightarrow> m \<in> set (nodes_of t)"
proof (induction t rule: nodes_of.induct)
  case 1
  then show ?case by simp
next
  case (2 x l r)
  show ?case
  proof (cases "p = Node x l r")
    case True
    then have "l = Some m \<or> r = Some m" using "2.prems"(2) by auto
    then show ?thesis using nodes_of_self [of m] by auto
  next
    case False
    then have "p \<in> set (nodes_of l) \<or> p \<in> set (nodes_of r)" using "2.prems"(1) by simp
    then show ?thesis using "2.IH" "2.prems"(2) by auto
  qed
qed

lemma pair_up_parent:
  "even (length c) \<Longrightarrow> m \<in> set c \<Longrightarrow>
   \<exists>p \<in> set (pair_up D c). left p = Some m \<or> right p = Some m"
  by (induction c rule: induct_list012) auto

lemma private_build_root_power_of_two:
  "length c = 2 ^ k \<Longrightarrow>
   \<exists>r. private_build_root D c = Inr r \<and> set c \<subseteq> set (nodes_of (Some r))"
proof (induction k arbitrary: c)
  case 0
  then obtain n where "c = [n]" by (cases c) auto
  then show ?case by (simp add: private_build_root_single nodes_of_self)
next
  case (Suc k)
  have two: "2 \<le> length c" and ev: "even (length c)" using Suc.prems by simp_all
  have "length (pair_up D c) = 2 ^ k" using Suc.prems by (simp add: length_pair_up)
  then obtain r where r: "private_build_root D (pair_up D c) = Inr r"
    and sub: "set (pair_up D c) \<subseteq> set (nodes_of (Some r))"
    using Suc.IH by blast
  have "m \<in> set (nodes_of (Some r))" if mc: "m \<in> set c" for m
  proof -
    obtain p where "p \<in> set (pair_up D c)" "left p = Some m \<or> right p = Some m"
      using pair_up_parent [OF ev mc] by blast
    then show ?thesis using sub nodes_of_child by blast
  qed
  then show ?case using r by (auto simp: private_build_root_step [OF two])
qed

lemma padded_power_of_two:
  assumes "C \<noteq> []" "length C = 2 ^ k \<or> length C + 1 = 2 ^ k"
  shows "\<exists>j. length (if length C mod 2 \<noteq> 0 then C @ [last C] else C) = 2 ^ j"
proof (cases "odd (length C)")
  case True
  then have pad: "length (if length C mod 2 \<noteq> 0 then C @ [last C] else C) = length C + 1"
    by (simp add: odd_iff_mod_2_eq_one)
  show ?thesis
  proof (cases "length C = 2 ^ k")
    case eq: True
    with True have "k = 0" by (cases k) auto
    with eq have "length C + 1 = 2 ^ 1" by simp
    then show ?thesis unfolding pad by (rule exI)
  next
    case False
    then have "length C + 1 = 2 ^ k" using assms(2) by simp
    then show ?thesis unfolding pad by (rule exI)
  qed
next
  case False
  then have pad: "length (if length C mod 2 \<noteq> 0 then C @ [last C] else C) = length C"
    by (simp add: even_iff_mod_2_eq_zero)
  have "length C = 2 ^ k"
  proof (rule ccontr)
    assume "length C \<noteq> 2 ^ k"
    then have e: "length C + 1 = 2 ^ k" using assms(2) by simp
    have "odd (length C + 1)" using False by simp
    then have "odd ((2::nat) ^ k)" unfolding e .
    then have "k = 0" by (cases k) auto
    with e show False using assms(1) by simp
  qed
  then show ?thesis unfolding pad by (rule exI)
qed

section \<open>Small collections, for any digest\<close>

lemmas build_simps = MerkleTree_def build_root_def private_build_root_Cons2
  private_build_root_single

lemma private_build_root_three:
  "private_build_root D [n1, n2, n3] =
     Inr (Node (D (PStr (node_value n1 @ node_value n2))) (Some n1) (Some n2))"
  by (simp add: private_build_root_Cons2 private_build_root_single)

lemma root_of_three_items:
  "MerkleTree [a, b, c] D =
     Inr \<lparr>digest = D,
          root = Some (Node (D (PStr (D (PStr (D a @ D b)) @ D (PStr (D c @ D c)))))
                   (Some (Node (D (PStr (D a @ D b)))
                            (Some (Node (D a) None None)) (Some (Node (D b) None None))))
                   (Some (Node (D (PStr (D c @ D c)))
                            (Some (Node (D c) None None)) (Some (Node (D c) None None)))))\<rparr>"
  by (simp add: build_simps)

lemma root_of_five_items:
  "MerkleTree [a, b, c, d, e] D =
     Inr \<lparr>digest = D,
          root = Some (Node (D (PStr (D (PStr (D a @ D b)) @ D (PStr (D c @ D d)))))
                   (Some (Node (D (PStr (D a @ D b)))
                            (Some (Node (D a) None None)) (Some (Node (D b) None None))))
                   (Some (Node (D (PStr (D c @ D d)))
                            (Some (Node (D c) None None)) (Some (Node (D d) None None)))))\<rparr>"
  by (simp add: build_simps)

section \<open>Facts about request_proof\<close>

lemma request_proof_cases:
  "request_proof t v =
     (if digest t v \<in> node_digests (root t)
      then Inl (AttributeError ''_MerkleTree__build_valid_proof'')
      else Inl (Exception
        ''This argument is not contained in the tree. Therefore is not part of the root''))"
  by (simp add: request_proof_def Let_def private_find_None_iff)

lemma request_proof_never_returns: "request_proof t v \<noteq> Inr p"
  by (simp add: request_proof_cases)

section \<open>The claims\<close>

subsection \<open>C7: construction fails exactly on the empty collection\<close>

text \<open>
  C7. Construction fails if and only if the input collection is empty, and then with the
  error of the \<open>assert\<close> (the spec's EmptyInputError); a failure returns no tree. For
  every non-empty collection construction returns a tree whose root is not \<open>None\<close>.
\<close>

theorem construction_fails_iff_empty:
  "(MerkleTree C D = Inl AssertionError \<longleftrightarrow> C = [])
   \<and> ((\<exists>e. MerkleTree C D = Inl e) \<longleftrightarrow> C = [])
   \<and> (C \<noteq> [] \<longrightarrow> (\<exists>t. MerkleTree C D = Inr t \<and> digest t = D \<and> root t \<noteq> None))"
proof (cases "C = []")
  case True
  then show ?thesis by (simp add: MerkleTree_def build_root_def)
next
  case False
  then obtain r where "build_root D C = Inr r" using build_root_total by blast
  then show ?thesis using False by (simp add: MerkleTree_def)
qed

theorem construction_fails_iff_empty_witness:
  "MerkleTree [] default_digest = Inl AssertionError
   \<and> (\<exists>t. MerkleTree [PStr ''a''] default_digest = Inr t
          \<and> digest t = default_digest \<and> root t \<noteq> None)"
  using construction_fails_iff_empty [of "[]" default_digest]
        construction_fails_iff_empty [of "[PStr ''a'']" default_digest]
  by simp

subsection \<open>C10: a query for None\<close>

text \<open>
  C10. \<open>contains(None)\<close> is false for every tree, whatever its digest delegate and its
  nodes: the guard answers before the digest is computed.
\<close>

theorem contains_None_is_False: "contains t PNone = False"
  by (simp add: contains_def)

subsection \<open>C3: a collection of one item\<close>

text \<open>
  C3, as the spec states it, fails: with the default digest the tree of \<open>['a']\<close> has root
  value \<open>'aa'\<close>, not the leaf digest \<open>'a'\<close>.
\<close>

theorem single_item_root_counterexample:
  "MerkleTree [PStr ''a''] default_digest =
     Inr \<lparr>digest = default_digest,
          root = Some (Node ''aa'' (Some (Node ''a'' None None))
                   (Some (Node ''a'' None None)))\<rparr>
   \<and> ''aa'' \<noteq> default_digest (PStr ''a'')"
  by (simp add: MerkleTree_def build_root_def private_build_root_Cons2
        private_build_root_single)

text \<open>
  C3, amended. A collection of one item \<open>x\<close> has odd length, so \<open>build_root\<close> appends \<open>x\<close>
  again and one fold is performed: the root is an internal node of value
  \<open>D(D(x) ++ D(x))\<close> over two leaves of value \<open>D(x)\<close>.
\<close>

theorem single_item_root:
  "MerkleTree [x] D =
     Inr \<lparr>digest = D,
          root = Some (Node (D (PStr (D x @ D x)))
                   (Some (Node (D x) None None)) (Some (Node (D x) None None)))\<rparr>"
  by (simp add: MerkleTree_def build_root_def private_build_root_Cons2
        private_build_root_single)

subsection \<open>C9: the structural invariant\<close>

text \<open>
  C9. In the tree built from a non-empty collection, every node reachable from the root
  is a leaf (both children absent) or has both children and carries the digest of the
  left child's value followed by the right child's value.
\<close>

theorem built_nodes_ok:
  "C \<noteq> [] \<Longrightarrow>
   \<exists>t. MerkleTree C D = Inr t \<and> (\<forall>n \<in> set (nodes_of (root t)). node_ok D n)"
  using nodes_of_root_ok [of C D] by (auto simp: MerkleTree_def)

theorem built_nodes_ok_witness:
  "[PStr ''a'', PStr ''b'', PStr ''c''] \<noteq> [] \<and>
   (\<exists>t. MerkleTree [PStr ''a'', PStr ''b'', PStr ''c''] default_digest = Inr t
        \<and> (\<forall>n \<in> set (nodes_of (root t)). node_ok default_digest n))"
  using built_nodes_ok [of "[PStr ''a'', PStr ''b'', PStr ''c'']" default_digest] by simp

subsection \<open>C8: what contains answers\<close>

text \<open>
  C8, as the spec states it ("for every value"), fails at \<open>None\<close>: in the tree of
  \<open>['None']\<close> under the default digest, \<open>str(None)\<close> is the value of a leaf and
  \<open>contains(None)\<close> is false.
\<close>

theorem contains_iff_counterexample:
  "MerkleTree [PStr ''None''] default_digest = Inr tree_of_None
   \<and> digest tree_of_None PNone \<in> node_digests (root tree_of_None)
   \<and> contains tree_of_None PNone = False"
  by (simp add: MerkleTree_def build_root_def private_build_root_Cons2
        private_build_root_single node_digests_def contains_def)

text \<open>
  C8, amended. For every value \<open>v\<close> other than \<open>None\<close>, \<open>contains(v)\<close> is true exactly when
  the digest of \<open>v\<close> is the value of some node of the tree, internal nodes included; the
  node \<open>__find\<close> returns is the first match in the order node, left subtree, right
  subtree; and a value whose digest is the value of no node is not contained.
\<close>

theorem contains_iff_digest_of_some_node:
  "(v \<noteq> PNone \<longrightarrow> contains t v = (digest t v \<in> node_digests (root t)))
   \<and> private_find (root t) d = List.find (\<lambda>m. node_value m = d) (nodes_of (root t))
   \<and> (digest t y \<notin> node_digests (root t) \<longrightarrow> contains t y = False)"
  by (simp add: contains_eq private_find_preorder)

theorem contains_iff_digest_of_some_node_witness:
  "PStr ''None'' \<noteq> PNone \<and> PStr ''NoneNone'' \<noteq> PNone
   \<and> contains tree_of_None (PStr ''None'') = True
   \<and> contains tree_of_None (PStr ''NoneNone'') = True
   \<and> digest tree_of_None (PStr ''x'') \<notin> node_digests (root tree_of_None)
   \<and> contains tree_of_None (PStr ''x'') = False"
  using contains_iff_digest_of_some_node [of "PStr ''None''" tree_of_None _ "PStr ''x''"]
        contains_iff_digest_of_some_node [of "PStr ''NoneNone''" tree_of_None _ "PStr ''x''"]
  by (simp add: node_digests_def)

subsection \<open>C1: the items of the collection are contained\<close>

text \<open>
  C1, as the spec states it, fails: \<open>None\<close> is an item of \<open>[None, 'a']\<close>, and \<open>contains\<close>
  answers false for \<open>None\<close> at its guard.
\<close>

theorem items_contained_counterexample:
  "MerkleTree [PNone, PStr ''a''] default_digest = Inr tree_of_None_a
   \<and> PNone \<in> set [PNone, PStr ''a'']
   \<and> contains tree_of_None_a PNone = False"
  by (simp add: MerkleTree_def build_root_def private_build_root_Cons2
        private_build_root_single contains_def)

text \<open>
  C1, amended. When the leaf level, after the padding of \<open>build_root\<close>, has a power of two
  many nodes (the collection has \<open>2 ^ k\<close> or \<open>2 ^ k - 1\<close> items), construction returns a tree
  and \<open>contains\<close> is true of every item of the collection other than \<open>None\<close>. Levels with an
  odd node count are left to C2.
\<close>

theorem items_contained_when_levels_even:
  assumes "C \<noteq> []" "length C = 2 ^ k \<or> length C + 1 = 2 ^ k" "x \<in> set C" "x \<noteq> PNone"
  shows "\<exists>t. MerkleTree C D = Inr t \<and> contains t x"
proof -
  let ?P = "if length C mod 2 \<noteq> 0 then C @ [last C] else C"
  let ?c = "map (\<lambda>x. Node (D x) None None) ?P"
  obtain j where "length ?c = 2 ^ j"
    using padded_power_of_two [OF assms(1,2)] by auto
  then obtain r where r: "private_build_root D ?c = Inr r"
    and sub: "set ?c \<subseteq> set (nodes_of (Some r))"
    using private_build_root_power_of_two by blast
  have "Node (D x) None None \<in> set ?c" using assms(3) by auto
  then have "Node (D x) None None \<in> set (nodes_of (Some r))" using sub by blast
  then have "D x \<in> node_digests (Some r)"
    unfolding node_digests_def by force
  moreover have "MerkleTree C D = Inr \<lparr>digest = D, root = Some r\<rparr>"
    using r by (simp add: MerkleTree_def build_root_unfold [OF assms(1)])
  ultimately show ?thesis using assms(4) by (simp add: contains_eq)
qed

theorem items_contained_when_levels_even_witness:
  "[PStr ''a'', PStr ''b'', PStr ''c''] \<noteq> []
   \<and> length [PStr ''a'', PStr ''b'', PStr ''c''] + 1 = 2 ^ 2
   \<and> PStr ''c'' \<in> set [PStr ''a'', PStr ''b'', PStr ''c'']
   \<and> PStr ''c'' \<noteq> PNone
   \<and> (\<exists>t. MerkleTree [PStr ''a'', PStr ''b'', PStr ''c''] default_digest = Inr t
          \<and> contains t (PStr ''c''))"
  using items_contained_when_levels_even
          [of "[PStr ''a'', PStr ''b'', PStr ''c'']" 2 "PStr ''c''" default_digest]
  by simp

subsection \<open>C2: the fold\<close>

text \<open>
  C2, at \<open>['a','b','c','d','e']\<close> with the default digest. The leaf level is padded to six
  nodes and folded to the three nodes \<open>ab\<close>, \<open>cd\<close>, \<open>ee\<close>. On this level of odd size
  \<open>__build_root\<close> appends no copy (it does so when the size is even, after \<open>size\<close> was
  read) and the loop pairs only \<open>ab\<close> with \<open>cd\<close>: the root value is \<open>'abcd'\<close>, not the
  digest over \<open>abcd\<close> and \<open>eeee\<close> that duplication of the last node gives, and \<open>'e'\<close> is
  no longer in the tree.
\<close>

theorem odd_level_drops_last_node:
  "MerkleTree [PStr ''a'', PStr ''b'', PStr ''c'', PStr ''d'', PStr ''e''] default_digest
     = Inr tree_of_abcde
   \<and> private_build_root default_digest
        [Node ''ab'' (Some (leaf ''a'')) (Some (leaf ''b'')),
         Node ''cd'' (Some (leaf ''c'')) (Some (leaf ''d'')),
         Node ''ee'' (Some (leaf ''e'')) (Some (leaf ''e''))] = Inr (the (root tree_of_abcde))
   \<and> ''abcd'' \<noteq> default_digest (PStr (default_digest (PStr (''ab'' @ ''cd''))
                  @ default_digest (PStr (''ee'' @ ''ee''))))
   \<and> contains tree_of_abcde (PStr ''e'') = False"
  by (simp add: build_simps contains_def)

subsection \<open>C4: the proof returned for a present item\<close>

text \<open>
  C4, at the tree of \<open>['a','b','c']\<close> and the item \<open>'c'\<close>, which \<open>contains\<close> finds:
  \<open>request_proof\<close> raises AttributeError where the claim has a proof of two entries.
\<close>

theorem request_proof_present_item_raises:
  "MerkleTree [PStr ''a'', PStr ''b'', PStr ''c''] default_digest = Inr tree_of_abc
   \<and> contains tree_of_abc (PStr ''c'') = True
   \<and> request_proof tree_of_abc (PStr ''c'')
       = Inl (AttributeError ''_MerkleTree__build_valid_proof'')"
  by (simp add: build_simps contains_def request_proof_def)

subsection \<open>C6: when request_proof fails\<close>

text \<open>
  C6, at the tree of \<open>['a','b']\<close>. For \<open>'z'\<close>, whose digest is the value of no node, the
  exception with the message "not contained" is raised, as claimed. For \<open>'a'\<close>, whose
  digest is the value of a leaf, \<open>request_proof\<close> fails too, with AttributeError, where the
  claim has it return a proof.
\<close>

theorem request_proof_fails_when_present:
  "MerkleTree [PStr ''a'', PStr ''b''] default_digest = Inr tree_of_ab
   \<and> digest tree_of_ab (PStr ''a'') \<in> node_digests (root tree_of_ab)
   \<and> request_proof tree_of_ab (PStr ''a'')
       = Inl (AttributeError ''_MerkleTree__build_valid_proof'')
   \<and> digest tree_of_ab (PStr ''z'') \<notin> node_digests (root tree_of_ab)
   \<and> request_proof tree_of_ab (PStr ''z'')
       = Inl (Exception
           ''This argument is not contained in the tree. Therefore is not part of the root'')"
  by (simp add: build_simps node_digests_def request_proof_def)

subsection \<open>C5: verification of a returned proof\<close>

text \<open>
  C5, at the tree of \<open>['a']\<close> and the item \<open>'a'\<close>. The verifier of the spec accepts the path
  \<open>[('a', Right)]\<close> from the leaf digest \<open>'a'\<close> to the root value \<open>'aa'\<close>, but
  \<open>request_proof\<close> returns no proof to verify: it raises AttributeError.
\<close>

theorem verify_round_trip_fails:
  "MerkleTree [PStr ''a''] default_digest = Inr tree_of_a
   \<and> request_proof tree_of_a (PStr ''a'')
       = Inl (AttributeError ''_MerkleTree__build_valid_proof'')
   \<and> verify default_digest (default_digest (PStr ''a'')) [(''a'', Right)] ''aa'' = True"
  by (simp add: build_simps request_proof_def verify_def)

end
